theory Spec2Isabelle
  imports Complex_Main "HOL-Library.Word"
begin

section \<open>Python values\<close>

text \<open>
  The three scripts (\<^verbatim>\<open>blip.py\<close>, \<^verbatim>\<open>miniblip.py\<close>, \<^verbatim>\<open>ollamablip.py\<close>) share one DSP core.
  The embedding follows \<^verbatim>\<open>blip.py\<close>; the other two files repeat the same functions under
  shorter names (\<^verbatim>\<open>H\<close>, \<^verbatim>\<open>C\<close>, \<^verbatim>\<open>PCM16\<close>, \<^verbatim>\<open>LIM\<close>, \<^verbatim>\<open>FX\<close>, \<^verbatim>\<open>SW\<close>, \<^verbatim>\<open>NZ\<close>, \<^verbatim>\<open>FM\<close>, \<^verbatim>\<open>sched\<close>,
  \<^verbatim>\<open>render_line\<close>).

  Python \<^verbatim>\<open>float\<close> values are modelled as \<^typ>\<open>real\<close>: arithmetic is exact, there is no
  rounding to 53 bits, no infinity and no NaN. Python \<^verbatim>\<open>int\<close> is \<^typ>\<open>int\<close>. A \<^verbatim>\<open>str\<close> is a
  \<^typ>\<open>string\<close>, one \<^typ>\<open>char\<close> per code point below 256. Exceptions are values of the type
  \<open>error\<close>, returned as \<open>Inl\<close>.
\<close>

datatype error = ZeroDivisionError | IndexError | StructError

text \<open>\<^verbatim>\<open>int(x)\<close> on a float truncates toward zero.\<close>

definition py_int :: "real \<Rightarrow> int" where
  "py_int x = (if 0 \<le> x then \<lfloor>x\<rfloor> else \<lceil>x\<rceil>)"


text \<open>
  \<^verbatim>\<open>ch.strip()\<close> is the empty (false) string exactly when the one-character string \<^verbatim>\<open>ch\<close>
  is whitespace: TAB, LF, VT, FF, CR, FS, GS, RS, US, space, NEL and NBSP below code point 256.
\<close>

definition py_isspace :: "char \<Rightarrow> bool" where
  "py_isspace ch = ((of_char ch :: nat) \<in> {9, 10, 11, 12, 13, 28, 29, 30, 31, 32, 133, 160})"

text \<open>\<^verbatim>\<open>PUNCT = set(".!?;:")\<close>\<close>

definition PUNCT :: "char set" where
  "PUNCT = set ''.!?;:''"



section \<open>Basic DSP\<close>






text \<open>
  \<^verbatim>\<open>
  def limit_peak(samples, limit_peak=0.98, dc_block=True):
      if not samples: return samples
      if dc_block:
          m = sum(samples) / len(samples)
          samples = [s - m for s in samples]
      peak = max(1e-12, max(abs(s) for s in samples))
      if peak > limit_peak:
          scale = limit_peak / peak
          samples = [s * scale for s in samples]
      return samples
  \<close>
\<close>

definition limit_peak :: "real list \<Rightarrow> real \<Rightarrow> bool \<Rightarrow> real list" where
  "limit_peak samples limit dc_block =
     (if samples = [] then samples
      else
        let samples1 =
              (if dc_block
               then let m = sum_list samples / real (length samples)
                    in map (\<lambda>s. s - m) samples
               else samples);
            peak = max (1 / 10 ^ 12) (Max (set (map abs samples1)))
        in if peak > limit
           then let scale = limit / peak in map (\<lambda>s. s * scale) samples1
           else samples1)"

section \<open>Schedule one line\<close>

text \<open>
  \<^verbatim>\<open>
  def schedule_beeps_for_line(text, cps, punct_mult, include_whitespace, grain_len, sr):
      starts = []
      t = 0.0
      step = 1.0 / max(1.0, cps)
      for ch in text:
          if ch.strip() or include_whitespace:
              starts.append(int(t * sr))
          t += step * (punct_mult if ch in PUNCT else 1.0)
      total_sec = t + (grain_len / sr) + 0.12
      return starts, int(total_sec * sr) + 1
  \<close>
  The loop carries \<open>starts\<close> and \<open>t\<close>. The only operation that can raise is the division
  \<^verbatim>\<open>grain_len / sr\<close> after the loop.
\<close>

fun sched_loop ::
  "real \<Rightarrow> real \<Rightarrow> bool \<Rightarrow> int \<Rightarrow> string \<Rightarrow> int list \<Rightarrow> real \<Rightarrow> int list \<times> real" where
  "sched_loop step punct_mult include_whitespace sr [] starts t = (starts, t)"
| "sched_loop step punct_mult include_whitespace sr (ch # text) starts t =
     sched_loop step punct_mult include_whitespace sr text
       (if \<not> py_isspace ch \<or> include_whitespace
        then starts @ [py_int (t * real_of_int sr)] else starts)
       (t + step * (if ch \<in> PUNCT then punct_mult else 1))"

definition schedule_beeps_for_line ::
  "string \<Rightarrow> real \<Rightarrow> real \<Rightarrow> bool \<Rightarrow> int \<Rightarrow> int \<Rightarrow> error + (int list \<times> int)" where
  "schedule_beeps_for_line text cps punct_mult include_whitespace grain_len sr =
     (let step = 1 / max 1 cps;
          (starts, t) = sched_loop step punct_mult include_whitespace sr text [] 0
      in if sr = 0 then Inl ZeroDivisionError
         else
           let total_sec = t + (real_of_int grain_len / real_of_int sr) + 0.12
           in Inr (starts, py_int (total_sec * real_of_int sr) + 1))"

text \<open>
  The schedule in closed form, with the rounding function left open. \<open>cursor\<close> is the
  running time after a prefix of the line; an onset is recorded for the characters that
  \<open>sounding\<close> selects, at the cursor of the prefix before them.
\<close>

definition advance :: "real \<Rightarrow> real \<Rightarrow> char \<Rightarrow> real" where
  "advance step punct_mult ch = step * (if ch \<in> PUNCT then punct_mult else 1)"

definition cursor :: "real \<Rightarrow> real \<Rightarrow> string \<Rightarrow> real" where
  "cursor step punct_mult text = sum_list (map (advance step punct_mult) text)"

definition sounding :: "bool \<Rightarrow> char \<Rightarrow> bool" where
  "sounding include_whitespace ch = (\<not> py_isspace ch \<or> include_whitespace)"

definition onsets_by :: "(real \<Rightarrow> int) \<Rightarrow> real \<Rightarrow> real \<Rightarrow> bool \<Rightarrow> int \<Rightarrow> string \<Rightarrow> int list" where
  "onsets_by rnd step punct_mult include_whitespace sr text =
     map (\<lambda>i. rnd (cursor step punct_mult (take i text) * real_of_int sr))
       (filter (\<lambda>i. sounding include_whitespace (text ! i)) [0..<length text])"

definition total_by :: "(real \<Rightarrow> int) \<Rightarrow> real \<Rightarrow> real \<Rightarrow> int \<Rightarrow> int \<Rightarrow> string \<Rightarrow> int" where
  "total_by rnd step punct_mult grain_len sr text =
     rnd ((cursor step punct_mult text + real_of_int grain_len / real_of_int sr + 0.12)
          * real_of_int sr) + 1"


section \<open>Grains\<close>









section \<open>The variation bank\<close>

text \<open>
  \<^verbatim>\<open>
  @dataclass
  class Variation:
      name: str
      grain: List[float]
      dur_ms: float
  \<close>
\<close>

record Variation =
  name :: string
  grain :: "real list"
  dur_ms :: real
















section \<open>Render one line buffer\<close>

text \<open>
  Python list indexing \<^verbatim>\<open>xs[i]\<close>: a negative index counts from the end, and an index outside
  \<open>-len \<dots> len - 1\<close> raises \<^verbatim>\<open>IndexError\<close>. \<open>list_pos\<close> is the position an index denotes.
\<close>

definition list_pos :: "'a list \<Rightarrow> int \<Rightarrow> int" where
  "list_pos xs i = (if i < 0 then i + int (length xs) else i)"

definition list_get :: "'a list \<Rightarrow> int \<Rightarrow> error + 'a" where
  "list_get xs i =
     (let k = list_pos xs i
      in if 0 \<le> k \<and> k < int (length xs) then Inr (xs ! nat k) else Inl IndexError)"

definition list_set :: "'a list \<Rightarrow> int \<Rightarrow> 'a \<Rightarrow> 'a list" where
  "list_set xs i v = xs[nat (list_pos xs i) := v]"

text \<open>
  \<^verbatim>\<open>
  def render_line_audio(text, var, sr, cps, punct_mult, include_whitespace):
      grain = var.grain
      glen = len(grain)
      starts, total_len = schedule_beeps_for_line(text, cps, punct_mult,
                                                  include_whitespace, glen, sr)
      buf = [0.0] * total_len
      for s0 in starts:
          j_end = min(total_len, s0 + glen)
          j = s0; i = 0
          while j < j_end:
              buf[j] += grain[i]
              j += 1; i += 1
      return limit_peak(buf, limit_peak=0.95, dc_block=True)
  \<close>
  \<open>add_grain\<close> is the inner \<^verbatim>\<open>while\<close> loop: \<^verbatim>\<open>buf[j] += grain[i]\<close> reads \<^verbatim>\<open>buf[j]\<close>, then
  \<^verbatim>\<open>grain[i]\<close>, then stores the sum. \<open>mix_starts\<close> is the \<^verbatim>\<open>for\<close> loop over the onsets.
\<close>

function add_grain :: "real list \<Rightarrow> int \<Rightarrow> real list \<Rightarrow> int \<Rightarrow> int \<Rightarrow> error + real list" where
  "add_grain grn j_end buf j i =
     (if j < j_end
      then (case list_get buf j of
              Inl e \<Rightarrow> Inl e
            | Inr old \<Rightarrow>
                (case list_get grn i of
                   Inl e \<Rightarrow> Inl e
                 | Inr x \<Rightarrow> add_grain grn j_end (list_set buf j (old + x)) (j + 1) (i + 1)))
      else Inr buf)"
  by pat_completeness auto
termination
  by (relation "measure (\<lambda>(grn, j_end, buf, j, i). nat (j_end - j))") auto

fun mix_starts :: "real list \<Rightarrow> int \<Rightarrow> int \<Rightarrow> real list \<Rightarrow> int list \<Rightarrow> error + real list" where
  "mix_starts grn glen total_len buf [] = Inr buf"
| "mix_starts grn glen total_len buf (s0 # starts) =
     (let j_end = min total_len (s0 + glen)
      in case add_grain grn j_end buf s0 0 of
           Inl e \<Rightarrow> Inl e
         | Inr buf1 \<Rightarrow> mix_starts grn glen total_len buf1 starts)"

definition render_line_audio ::
  "string \<Rightarrow> Variation \<Rightarrow> int \<Rightarrow> real \<Rightarrow> real \<Rightarrow> bool \<Rightarrow> error + real list" where
  "render_line_audio text var sr cps punct_mult include_whitespace =
     (let grn = grain var;
          glen = int (length grn)
      in case schedule_beeps_for_line text cps punct_mult include_whitespace glen sr of
           Inl e \<Rightarrow> Inl e
         | Inr (starts, total_len) \<Rightarrow>
             (let buf = replicate (nat total_len) 0
              in case mix_starts grn glen total_len buf starts of
                   Inl e \<Rightarrow> Inl e
                 | Inr buf1 \<Rightarrow> Inr (limit_peak buf1 0.95 True)))"

text \<open>
  The limiter as the specification words it: subtract the arithmetic mean if DC-block is
  requested, take the maximum absolute sample value, and scale by \<open>ceiling / peak\<close> if it
  exceeds the ceiling; empty input is returned unchanged.
\<close>

definition spec_limiter :: "real list \<Rightarrow> real \<Rightarrow> bool \<Rightarrow> real list" where
  "spec_limiter samples ceil_v dc_block =
     (if samples = [] then []
      else
        let centred =
              (if dc_block
               then map (\<lambda>s. s - sum_list samples / real (length samples)) samples
               else samples);
            peak = Max (set (map abs centred))
        in if peak > ceil_v then map (\<lambda>s. s * (ceil_v / peak)) centred else centred)"

section \<open>The audio worker\<close>

text \<open>
  \<^verbatim>\<open>
  class AudioWorker(threading.Thread):
      def __init__(self, grain, sr, cps, punct_mult, ws):
          ...
          self.q=queue.Queue(); self.stop=False
      def enqueue(self, text):
          self.q.put(text)
      def run(self):
          while not self.stop:
              item=self.q.get()
              if item is None: break
              samples = render_line(item, self.grain, self.sr, self.cps, self.punct, self.ws)
              dur = self.player.play_async(samples, self.sr, self.tmp)
              self.player.wait_done(dur+0.03)
              self.player.flush_silence(self.sr, FLUSH_MS)
              if POST_GAP>0: time.sleep(POST_GAP)
      def close(self):
          self.stop=True; self.q.put(None)
  \<close>
  The worker thread and the main thread share the queue and the stop flag. The model is an
  interleaving of atomic steps. The worker is at one of four places: at the \<^verbatim>\<open>while\<close> test,
  at the blocking \<^verbatim>\<open>q.get()\<close>, rendering and playing the item it fetched, or past the loop.
  The main thread enqueues a fragment, or executes one of the two statements of \<^verbatim>\<open>close\<close>.
  \<open>played\<close> records the fragments rendered and played so far, in order.
\<close>

datatype location = AtWhile | AtGet | Playing string | Exited

record worker =
  q :: "string option list"
  stop :: bool
  loc :: location
  played :: "string list"

datatype event = Enqueue string | SetStop | PutSentinel | WorkerStep

fun worker_step :: "worker \<Rightarrow> worker" where
  "worker_step w =
     (case loc w of
        AtWhile \<Rightarrow> (if stop w then w\<lparr>loc := Exited\<rparr> else w\<lparr>loc := AtGet\<rparr>)
      | AtGet \<Rightarrow>
          (case q w of
             [] \<Rightarrow> w
           | None # rest \<Rightarrow> w\<lparr>q := rest, loc := Exited\<rparr>
           | Some item # rest \<Rightarrow> w\<lparr>q := rest, loc := Playing item\<rparr>)
      | Playing item \<Rightarrow> w\<lparr>loc := AtWhile, played := played w @ [item]\<rparr>
      | Exited \<Rightarrow> w)"

fun exec_event :: "worker \<Rightarrow> event \<Rightarrow> worker" where
  "exec_event w (Enqueue fragment) = w\<lparr>q := q w @ [Some fragment]\<rparr>"
| "exec_event w SetStop = w\<lparr>stop := True\<rparr>"
| "exec_event w PutSentinel = w\<lparr>q := q w @ [None]\<rparr>"
| "exec_event w WorkerStep = worker_step w"

definition run :: "worker \<Rightarrow> event list \<Rightarrow> worker" where
  "run w es = foldl exec_event w es"

text \<open>The worker as \<^verbatim>\<open>__init__\<close> and \<^verbatim>\<open>start\<close> leave it, and the two statements of \<^verbatim>\<open>close\<close>.\<close>

definition started :: worker where
  "started = \<lparr>q = [], stop = False, loc = AtWhile, played = []\<rparr>"

definition close :: "event list" where
  "close = [SetStop, PutSentinel]"

text \<open>
  The fragments a trace enqueues, the fragment in flight at a location, and the fragments
  waiting in a queue.
\<close>

fun enqueued :: "event list \<Rightarrow> string list" where
  "enqueued [] = []"
| "enqueued (Enqueue fragment # es) = fragment # enqueued es"
| "enqueued (e # es) = enqueued es"

fun in_flight :: "location \<Rightarrow> string list" where
  "in_flight (Playing item) = [item]"
| "in_flight l = []"

fun pending :: "string option list \<Rightarrow> string list" where
  "pending [] = []"
| "pending (Some fragment # items) = fragment # pending items"
| "pending (None # items) = pending items"

text \<open>How many more fragments a worker that sees the stop flag can still finish.\<close>

fun committed :: "location \<Rightarrow> nat" where
  "committed AtWhile = 0"
| "committed AtGet = 1"
| "committed (Playing item) = 1"
| "committed Exited = 0"

section \<open>The scheduler\<close>

lemma cursor_Nil: "cursor step pm [] = 0"
  by (simp add: cursor_def)

lemma cursor_snoc: "cursor step pm (text @ [ch]) = cursor step pm text + advance step pm ch"
  by (simp add: cursor_def)

lemma cursor_Cons: "cursor step pm (ch # text) = advance step pm ch + cursor step pm text"
  by (simp add: cursor_def)

lemma onsets_by_Nil: "onsets_by rnd step pm ws sr [] = []"
  by (simp add: onsets_by_def)

lemma onsets_by_snoc:
  "onsets_by rnd step pm ws sr (text @ [ch]) =
     onsets_by rnd step pm ws sr text
       @ (if sounding ws ch then [rnd (cursor step pm text * real_of_int sr)] else [])"
proof -
  let ?n = "length text"
  let ?f = "\<lambda>xs i. rnd (cursor step pm (take i xs) * real_of_int sr)"
  have sel: "filter (\<lambda>i. sounding ws ((text @ [ch]) ! i)) [0..<?n] =
             filter (\<lambda>i. sounding ws (text ! i)) [0..<?n]"
    by (rule filter_cong) (simp_all add: nth_append)
  have val: "map (?f (text @ [ch])) (filter (\<lambda>i. sounding ws (text ! i)) [0..<?n]) =
             map (?f text) (filter (\<lambda>i. sounding ws (text ! i)) [0..<?n])"
    by (rule map_cong) simp_all
  have "onsets_by rnd step pm ws sr (text @ [ch]) =
          map (?f (text @ [ch])) (filter (\<lambda>i. sounding ws ((text @ [ch]) ! i)) ([0..<?n] @ [?n]))"
    by (simp add: onsets_by_def)
  also have "\<dots> = map (?f (text @ [ch])) (filter (\<lambda>i. sounding ws (text ! i)) [0..<?n])
                    @ (if sounding ws ch then [?f (text @ [ch]) ?n] else [])"
    unfolding filter_append map_append sel by simp
  also have "\<dots> = onsets_by rnd step pm ws sr text
                    @ (if sounding ws ch then [rnd (cursor step pm text * real_of_int sr)] else [])"
    unfolding val by (simp add: onsets_by_def)
  finally show ?thesis .
qed

text \<open>
  The loop invariant: after the prefix \<open>pre\<close> the accumulators hold the closed form of
  \<open>pre\<close>; running the loop on the rest yields the closed form of the whole line.
\<close>

lemma sched_loop_closed:
  "sched_loop step pm ws sr line (onsets_by py_int step pm ws sr pre) (cursor step pm pre) =
     (onsets_by py_int step pm ws sr (pre @ line), cursor step pm (pre @ line))"
proof (induction line arbitrary: pre)
  case Nil
  show ?case by simp
next
  case (Cons ch line)
  have acc: "(if \<not> py_isspace ch \<or> ws
              then onsets_by py_int step pm ws sr pre @ [py_int (cursor step pm pre * real_of_int sr)]
              else onsets_by py_int step pm ws sr pre) = onsets_by py_int step pm ws sr (pre @ [ch])"
    by (simp add: onsets_by_snoc sounding_def)
  have cur: "cursor step pm pre + step * (if ch \<in> PUNCT then pm else 1) = cursor step pm (pre @ [ch])"
    by (simp add: cursor_snoc advance_def)
  have "sched_loop step pm ws sr (ch # line) (onsets_by py_int step pm ws sr pre) (cursor step pm pre)
        = sched_loop step pm ws sr line (onsets_by py_int step pm ws sr (pre @ [ch]))
            (cursor step pm (pre @ [ch]))"
    unfolding sched_loop.simps acc cur ..
  also have "\<dots> = (onsets_by py_int step pm ws sr ((pre @ [ch]) @ line),
                   cursor step pm ((pre @ [ch]) @ line))"
    by (rule Cons.IH)
  finally show ?case by simp
qed

lemma sched_loop_start:
  "sched_loop step pm ws sr text [] 0 =
     (onsets_by py_int step pm ws sr text, cursor step pm text)"
  using sched_loop_closed [of step pm ws sr "text" "[]"]
  by (simp add: onsets_by_Nil cursor_Nil)

lemma schedule_closed:
  "sr \<noteq> 0 \<Longrightarrow>
   schedule_beeps_for_line text cps pm ws grain_len sr =
     Inr (onsets_by py_int (1 / max 1 cps) pm ws sr text,
          total_by py_int (1 / max 1 cps) pm grain_len sr text)"
  by (simp add: schedule_beeps_for_line_def sched_loop_start total_by_def Let_def)






section \<open>Claims about the scheduler\<close>






section \<open>The synthesizers return, and how many samples\<close>


lemma length_range: "length [0..n - 1] = nat n"
  by simp


















lemma length_limit_peak: "length (limit_peak xs c dc) = length xs"
  by (simp add: limit_peak_def Let_def)


section \<open>Claims about the grains\<close>






lemma limit_peak_Nil: "limit_peak [] c dc = []"
  by (simp add: limit_peak_def)










section \<open>Claims about the PCM encoding\<close>

















section \<open>The limiter\<close>

lemma scaled_bound:
  fixes ys :: "real list"
  assumes c: "0 \<le> c" and ne: "ys \<noteq> []" and s: "s \<in> set ys"
  defines "peak \<equiv> max (1 / 10 ^ 12) (Max (set (map abs ys)))"
  shows "\<bar>if peak > c then s * (c / peak) else s\<bar> \<le> c"
proof -
  have "\<bar>s\<bar> \<in> set (map abs ys)" using s by simp
  then have "\<bar>s\<bar> \<le> Max (set (map abs ys))" by (intro Max_ge) simp_all
  then have sp: "\<bar>s\<bar> \<le> peak" by (simp add: peak_def)
  have pos: "0 < peak" by (simp add: peak_def max_def)
  show ?thesis
  proof (cases "peak > c")
    case True
    have "\<bar>s * (c / peak)\<bar> = \<bar>s\<bar> / peak * c"
      using pos c by (simp add: abs_mult)
    also have "\<dots> \<le> 1 * c"
      using sp pos c by (intro mult_right_mono) simp_all
    finally show ?thesis using True by simp
  next
    case False
    with sp show ?thesis by simp
  qed
qed

lemma limit_peak_bound:
  assumes c: "0 \<le> c" and s: "s \<in> set (limit_peak xs c dc)"
  shows "\<bar>s\<bar> \<le> c"
proof (cases "xs = []")
  case True
  with s show ?thesis by (simp add: limit_peak_def)
next
  case False
  define ys where "ys = (if dc then map (\<lambda>s. s - sum_list xs / real (length xs)) xs else xs)"
  define peak where "peak = max (1 / 10 ^ 12) (Max (set (map abs ys)))"
  have ne: "ys \<noteq> []" using False by (simp add: ys_def)
  have lp: "limit_peak xs c dc = (if peak > c then map (\<lambda>s. s * (c / peak)) ys else ys)"
    using False by (simp add: limit_peak_def Let_def ys_def peak_def)
  from s obtain y where y: "y \<in> set ys" and sy: "s = (if peak > c then y * (c / peak) else y)"
    unfolding lp by (auto split: if_splits)
  show ?thesis
    unfolding sy peak_def by (rule scaled_bound [OF c ne y])
qed

lemma limit_peak_spec:
  assumes "1 / 10 ^ 12 \<le> c"
  shows "limit_peak xs c dc = spec_limiter xs c dc"
proof (cases "xs = []")
  case True
  then show ?thesis by (simp add: limit_peak_def spec_limiter_def)
next
  case False
  define ys where "ys = (if dc then map (\<lambda>s. s - sum_list xs / real (length xs)) xs else xs)"
  define M where "M = Max (set (map abs ys))"
  have a: "limit_peak xs c dc =
             (if max (1 / 10 ^ 12) M > c then map (\<lambda>s. s * (c / max (1 / 10 ^ 12) M)) ys else ys)"
    using False by (simp add: limit_peak_def Let_def ys_def M_def)
  have b: "spec_limiter xs c dc = (if M > c then map (\<lambda>s. s * (c / M)) ys else ys)"
    using False by (simp add: spec_limiter_def Let_def ys_def M_def)
  show ?thesis
  proof (cases "M > c")
    case True
    with assms have "max (1 / 10 ^ 12) M = M" by (simp add: max_def)
    then show ?thesis unfolding a b by simp
  next
    case False
    with assms have "\<not> max (1 / 10 ^ 12) M > c" by (simp add: max_def)
    with False show ?thesis unfolding a b by simp
  qed
qed

section \<open>The mixing loops return\<close>

declare add_grain.simps [simp del]

lemma length_list_set: "length (list_set xs i v) = length xs"
  by (simp add: list_set_def)

lemma list_get_ok:
  "0 \<le> i \<Longrightarrow> i < int (length xs) \<Longrightarrow> list_get xs i = Inr (xs ! nat i)"
  by (simp add: list_get_def list_pos_def)

lemma add_grain_ok:
  "0 \<le> j \<Longrightarrow> 0 \<le> i \<Longrightarrow> j_end \<le> int (length buf) \<Longrightarrow> j_end - j \<le> int (length grn) - i \<Longrightarrow>
   \<exists>buf1. add_grain grn j_end buf j i = Inr buf1 \<and> length buf1 = length buf"
proof (induction grn j_end buf j i rule: add_grain.induct)
  case (1 grn j_end buf j i)
  show ?case
  proof (cases "j < j_end")
    case False
    then show ?thesis by (simp add: add_grain.simps [of grn j_end buf j i])
  next
    case True
    with "1.prems" have gb: "list_get buf j = Inr (buf ! nat j)"
      and gg: "list_get grn i = Inr (grn ! nat i)"
      by (simp_all add: list_get_ok)
    let ?buf = "list_set buf j (buf ! nat j + grn ! nat i)"
    have "\<exists>buf1. add_grain grn j_end ?buf (j + 1) (i + 1) = Inr buf1 \<and> length buf1 = length ?buf"
      using "1.prems" True
      by (intro "1.IH" [OF True gb gg]) (simp_all add: length_list_set)
    then show ?thesis
      using True gb gg by (simp add: add_grain.simps [of grn j_end buf j i] length_list_set)
  qed
qed

lemma mix_starts_ok:
  "\<forall>s \<in> set starts. 0 \<le> s \<Longrightarrow> total_len \<le> int (length buf) \<Longrightarrow>
   \<exists>buf1. mix_starts grn (int (length grn)) total_len buf starts = Inr buf1
          \<and> length buf1 = length buf"
proof (induction starts arbitrary: buf)
  case Nil
  show ?case by simp
next
  case (Cons s0 starts)
  let ?je = "min total_len (s0 + int (length grn))"
  from Cons.prems have s0: "0 \<le> s0" and je: "?je \<le> int (length buf)"
    and room: "?je - s0 \<le> int (length grn) - 0"
    by simp_all
  obtain buf1 where b1: "add_grain grn ?je buf s0 0 = Inr buf1"
    and l1: "length buf1 = length buf"
    using add_grain_ok [OF s0 _ je room] by auto
  from Cons.prems l1 obtain buf2 where
    "mix_starts grn (int (length grn)) total_len buf1 starts = Inr buf2"
    and "length buf2 = length buf1"
    using Cons.IH [of buf1] by auto
  with b1 l1 show ?case by (simp add: Let_def)
qed

section \<open>Bounds of the schedule\<close>

lemma step_pos: "0 < 1 / max 1 (cps :: real)"
  by (simp add: max_def)

lemma advance_nonneg: "0 \<le> step \<Longrightarrow> 0 \<le> pm \<Longrightarrow> 0 \<le> advance step pm ch"
  by (simp add: advance_def)

lemma cursor_nonneg: "0 \<le> step \<Longrightarrow> 0 \<le> pm \<Longrightarrow> 0 \<le> cursor step pm line"
  by (induction line) (simp_all add: cursor_Nil cursor_Cons advance_nonneg)




lemma py_int_nonneg: "0 \<le> x \<Longrightarrow> 0 \<le> py_int x"
  by (simp add: py_int_def)

section \<open>Claims about the schedule bounds\<close>

lemma onsets_by_in:
  assumes "s \<in> set (onsets_by rnd step pm ws sr line)"
  shows "\<exists>i \<le> length line. s = rnd (cursor step pm (take i line) * real_of_int sr)"
  using assms by (auto simp add: onsets_by_def intro: less_imp_le)

lemma onsets_nonneg:
  assumes "0 \<le> step" and "0 \<le> pm" and "0 \<le> sr"
    and "s \<in> set (onsets_by py_int step pm ws sr line)"
  shows "0 \<le> s"
proof -
  from onsets_by_in [OF assms(4)] obtain i
    where s: "s = py_int (cursor step pm (take i line) * real_of_int sr)" by blast
  have "0 \<le> cursor step pm (take i line) * real_of_int sr"
    using cursor_nonneg [OF assms(1,2)] assms(3) by simp
  then show ?thesis unfolding s by (rule py_int_nonneg)
qed




lemma total_positive:
  assumes sr: "0 < sr" and x: "0 \<le> cur" and gl: "0 \<le> gl"
  shows "0 \<le> py_int ((cur + real_of_int gl / real_of_int sr + 0.12) * real_of_int sr)"
proof -
  have "0 \<le> cur + real_of_int gl / real_of_int sr + 0.12"
    using sr x gl by (simp add: add_nonneg_nonneg)
  then have "0 \<le> (cur + real_of_int gl / real_of_int sr + 0.12) * real_of_int sr"
    using sr by (intro mult_nonneg_nonneg) simp_all
  then show ?thesis by (rule py_int_nonneg)
qed


text \<open>
  The strict bound needs room after the last onset: at 7 Hz with an empty grain the only
  onset of \<^verbatim>\<open>"a"\<close> is 0 and the total length is 1.
\<close>

lemma schedule_low_rate_example:
  "schedule_beeps_for_line ''a'' 100 1 False 0 7 = Inr ([0], 1)"
  by (simp add: schedule_beeps_for_line_def py_isspace_def PUNCT_def py_int_def)



section \<open>Claims about the line renderer\<close>

lemma render_returns:
  assumes sr: "0 < sr" and pm: "0 \<le> pm"
  shows "\<exists>buf. render_line_audio line var sr cps pm ws = Inr buf \<and> buf \<noteq> []"
proof -
  let ?step = "1 / max 1 cps"
  let ?gl = "int (length (grain var))"
  let ?on = "onsets_by py_int ?step pm ws sr line"
  let ?tot = "total_by py_int ?step pm ?gl sr line"
  have st: "0 \<le> ?step" using step_pos [of cps] by simp
  have sr0: "0 \<le> sr" using sr by simp
  have eq: "schedule_beeps_for_line line cps pm ws ?gl sr = Inr (?on, ?tot)"
    using sr by (intro schedule_closed) simp
  have tot: "1 \<le> ?tot"
    using total_positive [OF sr cursor_nonneg [OF st pm], of ?gl line]
    by (simp add: total_by_def)
  have nonneg: "\<forall>s \<in> set ?on. 0 \<le> s"
    using onsets_nonneg [OF st pm sr0] by blast
  have room: "?tot \<le> int (length (replicate (nat ?tot) (0::real)))"
    using tot by simp
  from mix_starts_ok [OF nonneg room, of "grain var"] obtain buf1
    where mix: "mix_starts (grain var) ?gl ?tot (replicate (nat ?tot) 0) ?on = Inr buf1"
      and len: "length buf1 = length (replicate (nat ?tot) (0::real))"
    by blast
  from len tot have "buf1 \<noteq> []" by auto
  then have "limit_peak buf1 0.95 True \<noteq> []"
    using length_limit_peak [of buf1 "0.95" True] by auto
  moreover have "render_line_audio line var sr cps pm ws = Inr (limit_peak buf1 0.95 True)"
    by (simp add: render_line_audio_def Let_def eq mix)
  ultimately show ?thesis by blast
qed

lemma render_limited:
  assumes "render_line_audio line var sr cps pm ws = Inr buf"
  shows "\<exists>mixed. buf = limit_peak mixed 0.95 True"
  using assms
  by (auto simp add: render_line_audio_def Let_def split: sum.splits prod.splits)

text \<open>
  C4: every buffer the line renderer returns has all samples within the ceiling 0.95 (in
  exact arithmetic, so with \<open>\<epsilon> = 0\<close>), and for a positive sample rate and a multiplier that
  is not negative it does return a non-empty buffer. The limiter returns empty input
  unchanged, and for a ceiling of at least \<open>10\<^sup>-\<^sup>1\<^sup>2\<close> (0.95 and 0.98 are the ones used) it is
  the limiter the specification words: subtract the mean if DC-block is requested, then scale
  by \<open>ceiling / peak\<close> only if the peak exceeds the ceiling.
\<close>

theorem render_peak_bound:
  "(\<forall>buf. render_line_audio line var sr cps pm ws = Inr buf \<longrightarrow> (\<forall>s \<in> set buf. \<bar>s\<bar> \<le> 0.95))
   \<and> (0 < sr \<and> 0 \<le> pm \<longrightarrow>
         (\<exists>buf. render_line_audio line var sr cps pm ws = Inr buf \<and> buf \<noteq> []))
   \<and> limit_peak [] c dc = []
   \<and> (1 / 10 ^ 12 \<le> c \<longrightarrow> limit_peak xs c dc = spec_limiter xs c dc)"
proof (intro conjI allI impI ballI)
  fix buf s
  assume "render_line_audio line var sr cps pm ws = Inr buf" and s: "s \<in> set buf"
  then obtain mixed where "buf = limit_peak mixed 0.95 True"
    using render_limited by blast
  with s have "s \<in> set (limit_peak mixed 0.95 True)" by simp
  then show "\<bar>s\<bar> \<le> 0.95" by (intro limit_peak_bound [of "0.95" s mixed True]) simp_all
next
  assume "0 < sr \<and> 0 \<le> pm"
  then show "\<exists>buf. render_line_audio line var sr cps pm ws = Inr buf \<and> buf \<noteq> []"
    using render_returns by blast
next
  show "limit_peak [] c dc = []" by (rule limit_peak_Nil)
next
  assume "1 / 10 ^ 12 \<le> c"
  then show "limit_peak xs c dc = spec_limiter xs c dc" by (rule limit_peak_spec)
qed

theorem render_peak_bound_witness:
  "render_line_audio ''ab'' \<lparr>name = ''t'', grain = [1, 1], dur_ms = 1\<rparr> 10 10 1 False
     = Inr [19 / 80, 19 / 20, 19 / 80, - 19 / 40, - 19 / 40, - 19 / 40]
   \<and> limit_peak [3, - 1] 1 False = [1, - 1 / 3]"
proof -
  let ?r = "render_line_audio ''ab'' \<lparr>name = ''t'', grain = [1, 1], dur_ms = 1\<rparr> 10 10 1 False"
  have sch: "schedule_beeps_for_line ''ab'' 10 1 False 2 10 = Inr ([0, 1], 6)"
    by (simp add: schedule_beeps_for_line_def py_isspace_def PUNCT_def py_int_def)
  have buf: "replicate 6 (0::real) = [0, 0, 0, 0, 0, 0]"
    by (simp add: eval_nat_numeral)
  have lim6: "limit_peak [1, 2, 1, 0, 0, 0] (19 / 20) True
                = [19 / 80, 19 / 20, 19 / 80, - 19 / 40, - 19 / 40, - 19 / 40]"
    by (simp add: limit_peak_def Let_def)
  have val: "?r = Inr [19 / 80, 19 / 20, 19 / 80, - 19 / 40, - 19 / 40, - 19 / 40]"
    unfolding render_line_audio_def by (simp add: sch buf lim6 Let_def add_grain.simps list_get_def list_set_def list_pos_def)
  have lim: "limit_peak [3, - 1] 1 False = [1, - 1 / 3]"
    by (simp add: limit_peak_def Let_def)
  from render_peak_bound [of "''ab''" "\<lparr>name = ''t'', grain = [1, 1], dur_ms = 1\<rparr>" 10 10 1 False
      1 False "[3, - 1]"]
  have "\<exists>buf. ?r = Inr buf \<and> buf \<noteq> []" and "limit_peak [3, - 1] 1 False = spec_limiter [3, - 1] 1 False"
    by simp_all
  with val lim show ?thesis by simp
qed

section \<open>Claims about the variation bank\<close>




















section \<open>Claims about the audio worker\<close>

lemma run_Nil: "run w [] = w"
  by (simp add: run_def)

lemma run_Cons: "run w (e # es) = run (exec_event w e) es"
  by (simp add: run_def)

lemma run_snoc: "run w (es @ [e]) = exec_event (run w es) e"
  by (simp add: run_def)

lemma enqueued_snoc:
  "enqueued (es @ [e]) = enqueued es @ (case e of Enqueue fragment \<Rightarrow> [fragment] | _ \<Rightarrow> [])"
  by (induction es rule: enqueued.induct) (simp_all split: event.splits)

lemma pending_append: "pending (xs @ ys) = pending xs @ pending ys"
  by (induction xs rule: pending.induct) simp_all

text \<open>
  One step keeps the account of fragments: what was played, what is in flight and what
  waits in the queue, in this order, grows exactly by the fragment the step enqueues.
\<close>

lemma exec_event_account:
  "played (exec_event w e) @ in_flight (loc (exec_event w e)) @ pending (q (exec_event w e)) =
     (played w @ in_flight (loc w) @ pending (q w))
       @ (case e of Enqueue fragment \<Rightarrow> [fragment] | _ \<Rightarrow> [])"
proof (cases e)
  case (Enqueue fragment)
  then show ?thesis by (simp add: pending_append)
next
  case SetStop
  then show ?thesis by simp
next
  case PutSentinel
  then show ?thesis by (simp add: pending_append)
next
  case WorkerStep
  show ?thesis
  proof (cases "loc w")
    case AtWhile
    with WorkerStep show ?thesis by simp
  next
    case AtGet
    show ?thesis
    proof (cases "q w")
      case Nil
      with WorkerStep AtGet show ?thesis by simp
    next
      case (Cons item rest)
      with WorkerStep AtGet show ?thesis by (cases item) simp_all
    qed
  next
    case (Playing item)
    with WorkerStep show ?thesis by simp
  next
    case Exited
    with WorkerStep show ?thesis by simp
  qed
qed

lemma run_account:
  "played (run w es) @ in_flight (loc (run w es)) @ pending (q (run w es)) =
     (played w @ in_flight (loc w) @ pending (q w)) @ enqueued es"
proof (induction es rule: rev_induct)
  case Nil
  show ?case by (simp add: run_Nil)
next
  case (snoc e es)
  show ?case
    unfolding run_snoc exec_event_account enqueued_snoc snoc.IH by simp
qed

text \<open>Once the stop flag is set it stays set, and the worker finishes at most one more fragment.\<close>

lemma exec_event_stopped:
  assumes "stop w"
  shows "stop (exec_event w e)
     \<and> length (played (exec_event w e)) + committed (loc (exec_event w e))
           \<le> length (played w) + committed (loc w)"
proof (cases e)
  case WorkerStep
  show ?thesis
  proof (cases "loc w")
    case AtGet
    show ?thesis
    proof (cases "q w")
      case Nil
      with WorkerStep AtGet assms show ?thesis by simp
    next
      case (Cons item rest)
      with WorkerStep AtGet assms show ?thesis by (cases item) simp_all
    qed
  qed (use WorkerStep assms in simp_all)
qed (use assms in simp_all)

lemma run_stopped:
  "stop w \<Longrightarrow>
   stop (run w es)
   \<and> length (played (run w es)) + committed (loc (run w es)) \<le> length (played w) + committed (loc w)"
proof (induction es arbitrary: w)
  case Nil
  then show ?case by (simp add: run_Nil)
next
  case (Cons e es)
  from exec_event_stopped [OF Cons.prems, of e]
  have s: "stop (exec_event w e)"
    and le: "length (played (exec_event w e)) + committed (loc (exec_event w e))
               \<le> length (played w) + committed (loc w)"
    by simp_all
  from Cons.IH [OF s] le show ?case
    unfolding run_Cons by linarith
qed

lemma committed_le_1: "committed l \<le> 1"
  by (cases l) simp_all

lemma exec_event_exited:
  "loc w = Exited \<Longrightarrow> loc (exec_event w e) = Exited \<and> played (exec_event w e) = played w"
  by (cases e) simp_all

lemma run_exited:
  "loc w = Exited \<Longrightarrow> loc (run w es) = Exited \<and> played (run w es) = played w"
proof (induction es arbitrary: w)
  case Nil
  then show ?case by (simp add: run_Nil)
next
  case (Cons e es)
  from exec_event_exited [OF Cons.prems, of e] Cons.IH [of "exec_event w e"]
  show ?case unfolding run_Cons by simp
qed

text \<open>
  C10, as stated: the worker is started and blocks on the empty queue; a first fragment
  arrives and the worker starts playing it; two more fragments arrive and the source ends,
  so the main thread closes the worker. The worker finishes the fragment in flight, sees the
  stop flag at the \<^verbatim>\<open>while\<close> test and leaves the loop: F1 and F2 are still in the queue, in
  front of the sentinel, and are never played.
\<close>

theorem close_drops_queued_counterexample:
  "run started
     ([WorkerStep, Enqueue ''F0'', WorkerStep, Enqueue ''F1'', Enqueue ''F2''] @ close
        @ [WorkerStep, WorkerStep])
   = \<lparr>q = [Some ''F1'', Some ''F2'', None], stop = True, loc = Exited, played = [''F0'']\<rparr>"
  by (simp add: run_def started_def close_def)

text \<open>
  C10, amended: the worker plays fragments strictly in FIFO order, without reordering or
  skipping: at every moment the fragments enqueued so far are the ones played, then the one
  in flight, then the ones still waiting in the queue. Closing does not drain the queue:
  once the stop flag is set the worker finishes at most one more fragment (the one in
  flight, or the one it was already fetching) and leaves the loop at its next \<^verbatim>\<open>while\<close>
  test, and after it has left the loop nothing more is played; fragments still queued
  stay unplayed.
\<close>

theorem worker_fifo_and_prompt_close:
  "enqueued es = played (run started es) @ in_flight (loc (run started es))
                   @ pending (q (run started es))
   \<and> (stop w \<longrightarrow> length (played (run w es)) \<le> Suc (length (played w)))
   \<and> (stop w \<and> loc w = AtWhile \<longrightarrow> played (run w (WorkerStep # es)) = played w)
   \<and> (loc w = Exited \<longrightarrow> played (run w es) = played w)"
proof (intro conjI impI)
  show "enqueued es = played (run started es) @ in_flight (loc (run started es))
                   @ pending (q (run started es))"
    using run_account [of started es] by (simp add: started_def)
next
  assume "stop w"
  from run_stopped [OF this, of es] committed_le_1 [of "loc w"]
  show "length (played (run w es)) \<le> Suc (length (played w))" by linarith
next
  assume h: "stop w \<and> loc w = AtWhile"
  then have "loc (exec_event w WorkerStep) = Exited"
    and "played (exec_event w WorkerStep) = played w" by simp_all
  with run_exited [of "exec_event w WorkerStep" es]
  show "played (run w (WorkerStep # es)) = played w"
    unfolding run_Cons by simp
next
  assume "loc w = Exited"
  from run_exited [OF this, of es] show "played (run w es) = played w" by simp
qed

theorem worker_fifo_and_prompt_close_witness:
  "enqueued ([WorkerStep, Enqueue ''F0'', WorkerStep, Enqueue ''F1'', WorkerStep, WorkerStep,
              WorkerStep] @ close) = [''F0'', ''F1'']
   \<and> run started ([WorkerStep, Enqueue ''F0'', WorkerStep, Enqueue ''F1'', WorkerStep, WorkerStep,
              WorkerStep] @ close)
       = \<lparr>q = [None], stop = True, loc = Playing ''F1'', played = [''F0'']\<rparr>
   \<and> played (run \<lparr>q = [Some ''F2'', None], stop = True, loc = Playing ''F1'', played = [''F0'']\<rparr>
         [WorkerStep, WorkerStep, WorkerStep]) = [''F0'', ''F1'']
   \<and> played (run \<lparr>q = [Some ''F2'', None], stop = True, loc = AtWhile, played = [''F0'']\<rparr>
         [WorkerStep, WorkerStep, WorkerStep]) = [''F0'']"
proof -
  let ?es = "[WorkerStep, Enqueue ''F0'', WorkerStep, Enqueue ''F1'', WorkerStep, WorkerStep,
              WorkerStep] @ close"
  let ?w = "\<lparr>q = [Some ''F2'', None], stop = True, loc = Playing ''F1'', played = [''F0'']\<rparr>"
  let ?v = "\<lparr>q = [Some ''F2'', None], stop = True, loc = AtWhile, played = [''F0'']\<rparr>"
  have r: "run started ?es = \<lparr>q = [None], stop = True, loc = Playing ''F1'', played = [''F0'']\<rparr>"
    by (simp add: run_def started_def close_def)
  have e: "enqueued ?es = [''F0'', ''F1'']"
    using worker_fifo_and_prompt_close [of ?es ?w] unfolding r by simp
  have p: "played (run ?w [WorkerStep, WorkerStep, WorkerStep]) = [''F0'', ''F1'']"
    by (simp add: run_def)
  have "played (run ?v (WorkerStep # [WorkerStep, WorkerStep])) = played ?v"
    using worker_fifo_and_prompt_close [of "[WorkerStep, WorkerStep]" ?v] by simp
  then have s: "played (run ?v [WorkerStep, WorkerStep, WorkerStep]) = [''F0'']" by simp
  from r e p s show ?thesis by simp
qed

end
